theory Spec2Isabelle
  imports Complex_Main "HOL-Library.Log_Nat"
begin

section \<open>Python numbers\<close>

text \<open>
  Python's \<open>int\<close> is unbounded and is modelled by \<^typ>\<open>int\<close>. Python's \<open>float\<close> is an
  IEEE-754 binary64 number; a finite one is a rational number, so a float is modelled by the
  rational it denotes, and every float operation is the exact operation followed by rounding
  to the nearest number with a 53 bit significand, ties to the even significand. The
  exponent range is not bounded in this model: it agrees with binary64 wherever the exact
  result is zero or has a magnitude between \<open>2\<^sup>-\<^sup>1\<^sup>0\<^sup>2\<^sup>2\<close> and \<open>2\<^sup>1\<^sup>0\<^sup>2\<^sup>3\<close>, which holds for
  every operation \<open>main.py\<close> performs on the 32 bit slider values and the 64 bit positions
  and durations that Qt delivers.
\<close>

type_synonym pyfloat = rat

definition ilog2 :: "rat \<Rightarrow> int" where
  \<comment> \<open>for \<open>0 < x\<close>: the exponent \<open>k\<close> with \<open>2\<^sup>k \<le> x < 2\<^sup>k\<^sup>+\<^sup>1\<close>\<close>
  "ilog2 x = (if 1 \<le> x then bitlen \<lfloor>x\<rfloor> - 1 else - bitlen (\<lceil>1 / x\<rceil> - 1))"

definition round_half_even :: "rat \<Rightarrow> int" where
  "round_half_even y =
     (let f = \<lfloor>y\<rfloor>; d = y - of_int f
      in if d < 1 / 2 then f else if 1 / 2 < d then f + 1 else if even f then f else f + 1)"

definition round53 :: "rat \<Rightarrow> pyfloat" where
  "round53 x =
     (if x = 0 then 0
      else let e = ilog2 \<bar>x\<bar> - 52;
               m = round_half_even (\<bar>x\<bar> / 2 powi e)
           in sgn x * of_int m * 2 powi e)"

definition float_of_int :: "int \<Rightarrow> pyfloat" where
  \<comment> \<open>the conversion \<open>float(n)\<close> that Python applies to an int operand of a float operation\<close>
  "float_of_int n = round53 (of_int n)"

definition int_truediv :: "int \<Rightarrow> int \<Rightarrow> pyfloat" where
  \<comment> \<open>\<open>a / b\<close> on two ints, \<open>b \<noteq> 0\<close>: the correctly rounded quotient\<close>
  "int_truediv a b = round53 (of_int a / of_int b)"

definition float_mul :: "pyfloat \<Rightarrow> pyfloat \<Rightarrow> pyfloat" where
  "float_mul x y = round53 (x * y)"

definition float_div :: "pyfloat \<Rightarrow> pyfloat \<Rightarrow> pyfloat" where
  \<comment> \<open>\<open>x / y\<close> on floats, \<open>y \<noteq> 0\<close>\<close>
  "float_div x y = round53 (x / y)"

definition py_int :: "pyfloat \<Rightarrow> int" where
  \<comment> \<open>\<open>int(x)\<close> on a float: truncation toward zero\<close>
  "py_int x = (if 0 \<le> x then \<lfloor>x\<rfloor> else \<lceil>x\<rceil>)"

section \<open>Strings\<close>

fun decimal :: "nat \<Rightarrow> string" where
  "decimal n =
     (if n < 10 then [char_of (48 + n)] else decimal (n div 10) @ [char_of (48 + n mod 10)])"

definition fmt_02d :: "int \<Rightarrow> string" where
  \<comment> \<open>the format specification \<open>02d\<close>: zero padded to two characters, the sign included\<close>
  "fmt_02d n =
     (if n < 0 then CHR ''-'' # decimal (nat (- n))
      else if n < 10 then CHR ''0'' # decimal (nat n)
      else decimal (nat n))"

definition format_ms :: "int \<Rightarrow> string" where
  "format_ms ms =
     (if ms < 0 then ''--:--''
      else let s = py_int (int_truediv ms 1000);
               m = s div 60;
               s = s mod 60
           in fmt_02d m @ '':'' @ fmt_02d s)"

definition rfind :: "char \<Rightarrow> string \<Rightarrow> nat option" where
  \<comment> \<open>\<open>s.rfind(c)\<close>: the last index of \<open>c\<close>; Python's \<open>-1\<close> is \<open>None\<close>\<close>
  "rfind c s =
     (if c \<in> set s then Some (length s - 1 - length (takeWhile (\<lambda>x. x \<noteq> c) (rev s)))
      else None)"

definition suffix :: "string \<Rightarrow> string" where
  \<comment> \<open>\<open>PurePath.suffix\<close>, from the final component \<open>name\<close> of the path\<close>
  "suffix name =
     (case rfind CHR ''.'' name of
        None \<Rightarrow> []
      | Some i \<Rightarrow> if 0 < i \<and> i < length name - 1 then drop i name else [])"

definition lower_char :: "char \<Rightarrow> char" where
  "lower_char c =
     (let n = of_char c :: nat in if 65 \<le> n \<and> n \<le> 90 then char_of (n + 32) else c)"

definition lower :: "string \<Rightarrow> string" where
  \<comment> \<open>\<open>str.lower()\<close> on ASCII text\<close>
  "lower s = map lower_char s"

definition path_name :: "string \<Rightarrow> string" where
  \<comment> \<open>\<open>Path(s).name\<close> for the path of a file: what follows the last separator\<close>
  "path_name s = rev (takeWhile (\<lambda>c. c \<noteq> CHR ''/'') (rev s))"

definition SUPPORTED_EXTS :: "string list" where
  "SUPPORTED_EXTS = [''.mp3'', ''.wav'', ''.flac'', ''.ogg'', ''.m4a'']"

section \<open>Errors and list access\<close>

datatype py_error = IndexError | ValueError

definition getitem :: "'a list \<Rightarrow> int \<Rightarrow> py_error + 'a" where
  \<comment> \<open>\<open>xs[i]\<close>: a negative index counts from the end, an index out of range raises\<close>
  "getitem xs i =
     (let j = (if i < 0 then i + int (length xs) else i)
      in if 0 \<le> j \<and> j < int (length xs) then Inr (xs ! nat j) else Inl IndexError)"

section \<open>Random draws\<close>

text \<open>
  \<open>random.randrange\<close> belongs to Python's library. It is modelled by what the library
  documents: \<open>randrange(n)\<close> raises \<open>ValueError\<close> for \<open>n \<le> 0\<close> and otherwise returns
  each number of \<open>range(n)\<close> with the same probability. A computation that draws is a finite
  distribution: the list of its outcomes, each with its probability.
\<close>

type_synonym 'a dist = "('a \<times> rat) list"

definition certain :: "'a \<Rightarrow> 'a dist" where
  \<comment> \<open>a computation that does not draw\<close>
  "certain x = [(x, 1)]"

definition map_dist :: "('a \<Rightarrow> 'b) \<Rightarrow> 'a dist \<Rightarrow> 'b dist" where
  \<comment> \<open>what follows a draw, applied to each outcome\<close>
  "map_dist f d = map (\<lambda>(x, pr). (f x, pr)) d"

definition prob :: "'a dist \<Rightarrow> ('a \<Rightarrow> bool) \<Rightarrow> rat" where
  \<comment> \<open>the probability that the outcome satisfies \<open>P\<close>\<close>
  "prob d P = sum_list (map (\<lambda>(x, pr). if P x then pr else 0) d)"

definition randrange :: "int \<Rightarrow> py_error + int dist" where
  "randrange n =
     (if n \<le> 0 then Inl ValueError
      else Inr (map (\<lambda>k. (int k, 1 / of_int n)) [0..<nat n]))"

section \<open>The external player and the window\<close>

text \<open>
  \<open>QMediaPlayer\<close> and \<open>QAudioOutput\<close> are collaborators outside the repository. A handler
  reads the player through its getters and writes to it through its methods, and no handler
  reads a getter after it has called a method. So a handler is a function of a snapshot of the
  getters (\<open>player\<close>) and of the window, and the method calls it makes are appended, in order,
  to the field \<open>calls\<close> of the window.
\<close>

datatype playback_state = StoppedState | PlayingState | PausedState

record player =
  playbackState :: playback_state
  sourceIsLocalFile :: bool  \<comment> \<open>\<open>player.source().isLocalFile()\<close>\<close>
  position :: int
  duration :: int

datatype call =
    SetSource string  \<comment> \<open>\<open>player.setSource(QUrl.fromLocalFile(file_path))\<close>\<close>
  | Play
  | Pause
  | Stop
  | SetPosition int
  | SetVolume pyfloat  \<comment> \<open>\<open>audio_out.setVolume(gain)\<close>\<close>

record window =
  current_playlist :: "string list"
  current_index :: int
  is_seeking :: bool
  shuffle_checked :: bool  \<comment> \<open>\<open>shuffle_btn.isChecked()\<close>\<close>
  repeat_checked :: bool  \<comment> \<open>\<open>repeat_btn.isChecked()\<close>\<close>
  seek_slider :: int  \<comment> \<open>\<open>seek_slider.value()\<close>, range 0 to 1000\<close>
  vol_slider :: int  \<comment> \<open>\<open>vol_slider.value()\<close>, range 0 to 100\<close>
  time_label :: string
  duration_label :: string
  playlist_title :: string
  song_list :: "(string \<times> string option) list"  \<comment> \<open>text and \<open>Qt.UserRole\<close> data of each item\<close>
  song_row :: int  \<comment> \<open>\<open>song_list.currentRow()\<close>\<close>
  status :: string  \<comment> \<open>the message last shown in the status bar\<close>
  calls :: "call list"

definition slider_setValue :: "int \<Rightarrow> int \<Rightarrow> int \<Rightarrow> int" where
  \<comment> \<open>\<open>QSlider.setValue\<close> bounds the value by the slider's range\<close>
  "slider_setValue lo hi v = max lo (min hi v)"

definition setCurrentRow :: "int \<Rightarrow> window \<Rightarrow> window" where
  \<comment> \<open>\<open>QListWidget.setCurrentRow\<close>: a row that does not exist leaves no current row\<close>
  "setCurrentRow i w =
     w\<lparr>song_row := (if 0 \<le> i \<and> i < int (length (song_list w)) then i else - 1)\<rparr>"

definition player_call :: "call \<Rightarrow> window \<Rightarrow> window" where
  "player_call c w = w\<lparr>calls := calls w @ [c]\<rparr>"

section \<open>Loading a directory\<close>

text \<open>
  The file system is outside the repository: \<open>load_directory\<close> takes the path as text and
  the value of \<open>sorted(path.iterdir())\<close>, each entry with its path as text, its name and
  whether it is a file. The cover picture drawn by \<open>_update_cover_display\<close> is presentation
  only and is not part of the window modelled here.
\<close>

record dir_entry =
  entry_path :: string  \<comment> \<open>\<open>str(p)\<close>\<close>
  entry_name :: string  \<comment> \<open>\<open>p.name\<close>\<close>
  entry_is_file :: bool  \<comment> \<open>\<open>p.is_file()\<close>\<close>

definition load_directory :: "string \<Rightarrow> dir_entry list \<Rightarrow> window \<Rightarrow> window" where
  "load_directory path entries w =
     (let w = w\<lparr>playlist_title := path\<rparr>;
          w = w\<lparr>song_list := [], song_row := - 1\<rparr>;
          files = filter (\<lambda>p. lower (suffix (entry_name p)) \<in> set SUPPORTED_EXTS
                               \<and> entry_is_file p) entries
      in if files = [] then
           w\<lparr>song_list := [(''(no supported audio files found)'', None)],
             current_playlist := [],
             current_index := - 1,
             status := ''No audio files found in the folder.''\<rparr>
         else
           (let w = w\<lparr>song_list := map (\<lambda>f. (entry_name f, Some (entry_path f))) files\<rparr>;
                w = w\<lparr>current_playlist := map entry_path files, current_index := 0\<rparr>;
                w = setCurrentRow 0 w
            in w\<lparr>status := ''Loaded '' @ decimal (length files) @ '' tracks.''\<rparr>))"

section \<open>Playback control\<close>

definition play_at_index :: "int \<Rightarrow> window \<Rightarrow> py_error + window" where
  "play_at_index idx w =
     (if idx < 0 \<or> int (length (current_playlist w)) \<le> idx then Inr w
      else
        (let w = w\<lparr>current_index := idx\<rparr>
         in case getitem (current_playlist w) idx of
              Inl e \<Rightarrow> Inl e
            | Inr file_path \<Rightarrow>
                (let w = player_call (SetSource file_path) w;
                     w = player_call Play w;
                     w = setCurrentRow idx w
                 in Inr (w\<lparr>status := ''Playing: '' @ path_name file_path\<rparr>))))"

definition play_pause :: "player \<Rightarrow> window \<Rightarrow> py_error + window" where
  "play_pause p w =
     (if playbackState p = PlayingState then Inr (player_call Pause w)
      else if \<not> sourceIsLocalFile p then
        (if current_playlist w \<noteq> [] then
           play_at_index (if 0 \<le> current_index w then current_index w else 0) w
         else Inr (w\<lparr>status := ''No track selected.''\<rparr>))
      else Inr (player_call Play w))"

definition stop :: "window \<Rightarrow> window" where
  "stop w = player_call Stop w"

definition prev_track :: "window \<Rightarrow> py_error + window" where
  "prev_track w =
     (if current_playlist w = [] then Inr w
      else
        (let new_idx = current_index w - 1;
             new_idx = (if new_idx < 0
                        then (if repeat_checked w then int (length (current_playlist w)) - 1
                              else 0)
                        else new_idx)
         in play_at_index new_idx w))"

text \<open>
  \<open>next_track\<close> draws from \<open>random.randrange\<close> when shuffle is on, so it is a
  distribution of results; without shuffle it has one result.
\<close>

definition next_track :: "window \<Rightarrow> (py_error + window) dist" where
  "next_track w =
     (if current_playlist w = [] then certain (Inr w)
      else
        (let new_idx =
               (if shuffle_checked w then randrange (int (length (current_playlist w)))
                else
                  (let new_idx = current_index w + 1
                   in Inr (certain
                        (if int (length (current_playlist w)) \<le> new_idx
                         then (if repeat_checked w then 0
                               else int (length (current_playlist w)) - 1)
                         else new_idx))))
         in case new_idx of
              Inl e \<Rightarrow> certain (Inl e)
            | Inr d \<Rightarrow> map_dist (\<lambda>new_idx. play_at_index new_idx w) d))"

definition played_index :: "py_error + window \<Rightarrow> int option" where
  \<comment> \<open>the current index a result leaves, when it is a normal return\<close>
  "played_index res = (case res of Inl e \<Rightarrow> None | Inr w \<Rightarrow> Some (current_index w))"





section \<open>Position and seeker\<close>

definition on_position_changed :: "player \<Rightarrow> int \<Rightarrow> window \<Rightarrow> window" where
  "on_position_changed p pos w =
     (if is_seeking w then w
      else
        (let w = (if 0 < duration p
                  then w\<lparr>seek_slider :=
                           slider_setValue 0 1000
                             (py_int (float_mul (int_truediv pos (duration p))
                                                (float_of_int 1000)))\<rparr>
                  else w)
         in w\<lparr>time_label := format_ms pos\<rparr>))"

definition on_duration_changed :: "int \<Rightarrow> window \<Rightarrow> window" where
  "on_duration_changed d w = w\<lparr>duration_label := format_ms d\<rparr>"

definition seek_ms :: "int \<Rightarrow> int \<Rightarrow> int" where
  \<comment> \<open>\<open>ms = int((value / 1000) * duration)\<close>, as both slider handlers compute it\<close>
  "seek_ms v d = py_int (float_mul (int_truediv v 1000) (float_of_int d))"

definition on_seek_slider_moved :: "player \<Rightarrow> int \<Rightarrow> window \<Rightarrow> window" where
  "on_seek_slider_moved p v w =
     (if 0 < duration p
      then w\<lparr>time_label := format_ms (seek_ms v (duration p))\<rparr>
      else w)"

definition seeker_pressed :: "window \<Rightarrow> window" where
  \<comment> \<open>\<open>_seeker_pressed\<close>\<close>
  "seeker_pressed w = w\<lparr>is_seeking := True\<rparr>"

definition seeker_released :: "player \<Rightarrow> window \<Rightarrow> window" where
  \<comment> \<open>\<open>_seeker_released\<close>\<close>
  "seeker_released p w =
     (let v = seek_slider w;
          w = (if 0 < duration p
               then player_call (SetPosition (seek_ms v (duration p))) w
               else w)
      in w\<lparr>is_seeking := False\<rparr>)"

definition periodic_update :: "player \<Rightarrow> window \<Rightarrow> window" where
  \<comment> \<open>\<open>_periodic_update\<close>\<close>
  "periodic_update p w =
     (if \<not> is_seeking w then
        (let pos = position p;
             dur = duration p;
             w = (if 0 < dur
                  then w\<lparr>seek_slider :=
                           slider_setValue 0 1000
                             (py_int (float_mul (int_truediv pos dur) (float_of_int 1000)))\<rparr>
                  else w);
             w = w\<lparr>time_label := format_ms pos\<rparr>
         in w\<lparr>duration_label := format_ms dur\<rparr>)
      else w)"

text \<open>
  The signals that reach the window while the seek slider is held: \<open>player.positionChanged\<close>
  is connected to \<open>on_position_changed\<close> and \<open>ui_timer.timeout\<close> to \<open>_periodic_update\<close>.
  Each arrives with the state the player has at that moment.
\<close>

datatype engine_event = PositionChanged int | TimerTimeout

fun deliver :: "player \<times> engine_event \<Rightarrow> window \<Rightarrow> window" where
  "deliver (p, PositionChanged pos) w = on_position_changed p pos w"
| "deliver (p, TimerTimeout) w = periodic_update p w"

definition deliver_all :: "(player \<times> engine_event) list \<Rightarrow> window \<Rightarrow> window" where
  "deliver_all evs w = fold deliver evs w"

section \<open>Example states\<close>

definition abc_window :: window where
  "abc_window =
     \<lparr>current_playlist = [''/m/A.mp3'', ''/m/B.mp3'', ''/m/C.mp3''],
      current_index = 2,
      is_seeking = False,
      shuffle_checked = False,
      repeat_checked = False,
      seek_slider = 0,
      vol_slider = 70,
      time_label = ''00:00'',
      duration_label = ''00:00'',
      playlist_title = ''/m'',
      song_list = [(''A.mp3'', Some ''/m/A.mp3''), (''B.mp3'', Some ''/m/B.mp3''),
                   (''C.mp3'', Some ''/m/C.mp3'')],
      song_row = 2,
      status = ''Loaded 3 tracks.'',
      calls = []\<rparr>"

definition empty_window :: window where
  \<comment> \<open>the window as \<open>__init__\<close> leaves it\<close>
  "empty_window =
     \<lparr>current_playlist = [],
      current_index = - 1,
      is_seeking = False,
      shuffle_checked = False,
      repeat_checked = False,
      seek_slider = 0,
      vol_slider = 70,
      time_label = ''00:00'',
      duration_label = ''00:00'',
      playlist_title = ''Select a folder on the left'',
      song_list = [],
      song_row = - 1,
      status = [],
      calls = [SetVolume (float_div (float_of_int 70) 100)]\<rparr>"

definition idle_player :: player where
  \<comment> \<open>a player with no source\<close>
  "idle_player =
     \<lparr>playbackState = StoppedState, sourceIsLocalFile = False, position = 0, duration = 0\<rparr>"

definition playing_player :: player where
  \<comment> \<open>a player 1.5 s into a track of 3 s\<close>
  "playing_player =
     \<lparr>playbackState = PlayingState, sourceIsLocalFile = True, position = 1500,
      duration = 3000\<rparr>"

definition playing_c_window :: window where
  \<comment> \<open>\<open>abc_window\<close> after track C was started\<close>
  "playing_c_window =
     abc_window\<lparr>calls := [SetSource ''/m/C.mp3'', Play], status := ''Playing: C.mp3''\<rparr>"

definition no_audio_entries :: "dir_entry list" where
  \<comment> \<open>a picture, a directory with an audio name and a hidden file without suffix\<close>
  "no_audio_entries =
     [\<lparr>entry_path = ''/d/cover.jpg'', entry_name = ''cover.jpg'', entry_is_file = True\<rparr>,
      \<lparr>entry_path = ''/d/live.mp3'', entry_name = ''live.mp3'', entry_is_file = False\<rparr>,
      \<lparr>entry_path = ''/d/.mp3'', entry_name = ''.mp3'', entry_is_file = True\<rparr>]"

section \<open>Evaluation of the model\<close>

lemma format_ms_example: "format_ms 83500 = ''01:23''"
  by code_simp

lemma round53_examples:
  "round53 (3 / 2) = 3 / 2"
  "py_int (float_mul (int_truediv 600 1000) (float_of_int 3)) = 1"
  "py_int (float_mul (int_truediv 290 1000) (float_of_int 100)) = 28"
  by code_simp+

lemma idle_position_update:
  "on_position_changed playing_player 1500 abc_window
     = abc_window\<lparr>seek_slider := 500, time_label := ''00:01''\<rparr>"
  "periodic_update playing_player abc_window
     = abc_window\<lparr>seek_slider := 500, time_label := ''00:01'', duration_label := ''00:03''\<rparr>"
  by code_simp+

lemma playing_c_window_reached: "play_at_index 2 abc_window = Inr playing_c_window"
  by (simp add: playing_c_window_def abc_window_def play_at_index_def getitem_def
      player_call_def setCurrentRow_def path_name_def)

lemma no_audio_entries_filter:
  "filter (\<lambda>p. lower (suffix (entry_name p)) \<in> set SUPPORTED_EXTS \<and> entry_is_file p)
     no_audio_entries = []"
  by code_simp

section \<open>Rounding to a double\<close>

text \<open>
  What the claims need of \<open>round53\<close>: it is monotone, exact on integers below
  \<open>2\<^sup>5\<^sup>3\<close>, and its relative error is at most \<open>2\<^sup>-\<^sup>5\<^sup>3\<close>.
\<close>

lemma bitlen_pos: "0 < n \<Longrightarrow> 1 \<le> bitlen n"
  using bitlen_eq_zero_iff [of n] bitlen_nonneg [of n] by linarith

lemma ilog2_lower: assumes "0 < x" shows "2 powi ilog2 x \<le> x"
proof (cases "1 \<le> x")
  case True
  define n where "n = \<lfloor>x\<rfloor>"
  have n: "1 \<le> n" using True by (simp add: n_def le_floor_iff)
  then have b: "1 \<le> bitlen n" by (simp add: bitlen_pos)
  have "(2::int) ^ nat (bitlen n - 1) \<le> n" using bitlen_bounds [of n] n by simp
  then have "(of_int ((2::int) ^ nat (bitlen n - 1)) :: rat) \<le> of_int n"
    by (simp only: of_int_le_iff)
  then have "(2::rat) ^ nat (bitlen n - 1) \<le> of_int n" by simp
  also have "\<dots> \<le> x" by (simp add: n_def)
  finally show ?thesis using True b by (simp add: ilog2_def n_def power_int_nonneg_exp)
next
  case False
  define y where "y = 1 / x"
  define m where "m = \<lceil>y\<rceil> - 1"
  have y: "1 < y" using False assms by (simp add: y_def)
  have m: "1 \<le> m" using y by (simp add: m_def less_ceiling_iff)
  then have b: "1 \<le> bitlen m" by (simp add: bitlen_pos)
  have "m < 2 ^ nat (bitlen m)" using bitlen_bounds [of m] m by simp
  then have "m + 1 \<le> 2 ^ nat (bitlen m)" by simp
  then have "(of_int (m + 1) :: rat) \<le> of_int (2 ^ nat (bitlen m))"
    by (simp only: of_int_le_iff)
  then have "(of_int m :: rat) + 1 \<le> 2 ^ nat (bitlen m)" by simp
  moreover have "y \<le> of_int m + 1" by (simp add: m_def)
  ultimately have "y \<le> 2 ^ nat (bitlen m)" by linarith
  then have "1 / 2 ^ nat (bitlen m) \<le> 1 / y"
    using y by (intro divide_left_mono) auto
  moreover have "1 / y = x" by (simp add: y_def)
  moreover have "(2::rat) powi (- bitlen m) = 1 / 2 ^ nat (bitlen m)"
    using b by (simp add: power_int_minus_divide power_int_nonneg_exp)
  ultimately show ?thesis using False by (simp add: ilog2_def y_def m_def)
qed

lemma ilog2_upper: assumes "0 < x" shows "x < 2 powi (ilog2 x + 1)"
proof (cases "1 \<le> x")
  case True
  define n where "n = \<lfloor>x\<rfloor>"
  have n: "1 \<le> n" using True by (simp add: n_def le_floor_iff)
  then have b: "1 \<le> bitlen n" by (simp add: bitlen_pos)
  have "n < 2 ^ nat (bitlen n)" using bitlen_bounds [of n] n by simp
  then have "n + 1 \<le> 2 ^ nat (bitlen n)" by simp
  then have "(of_int (n + 1) :: rat) \<le> of_int (2 ^ nat (bitlen n))"
    by (simp only: of_int_le_iff)
  then have "(of_int n :: rat) + 1 \<le> 2 ^ nat (bitlen n)" by simp
  moreover have "x < of_int n + 1" unfolding n_def by linarith
  ultimately have "x < 2 ^ nat (bitlen n)" by linarith
  then show ?thesis using True b by (simp add: ilog2_def n_def power_int_nonneg_exp)
next
  case False
  define y where "y = 1 / x"
  define m where "m = \<lceil>y\<rceil> - 1"
  have y: "1 < y" using False assms by (simp add: y_def)
  have m: "1 \<le> m" using y by (simp add: m_def less_ceiling_iff)
  then have b: "1 \<le> bitlen m" by (simp add: bitlen_pos)
  have "(2::int) ^ nat (bitlen m - 1) \<le> m" using bitlen_bounds [of m] m by simp
  then have "(of_int ((2::int) ^ nat (bitlen m - 1)) :: rat) \<le> of_int m"
    by (simp only: of_int_le_iff)
  then have "(2::rat) ^ nat (bitlen m - 1) \<le> of_int m" by simp
  moreover have "of_int m < y" unfolding m_def by (simp, linarith)
  ultimately have "(2::rat) ^ nat (bitlen m - 1) < y" by linarith
  then have "1 / y < 1 / 2 ^ nat (bitlen m - 1)"
    using y by (intro divide_strict_left_mono) auto
  moreover have "1 / y = x" by (simp add: y_def)
  moreover have "(2::rat) powi (- bitlen m + 1) = 1 / 2 ^ nat (bitlen m - 1)"
  proof -
    have "(2::rat) powi (- bitlen m + 1) = 2 powi (- (bitlen m - 1))" by simp
    also have "\<dots> = 1 / 2 powi (bitlen m - 1)" by (rule power_int_minus_divide)
    also have "\<dots> = 1 / 2 ^ nat (bitlen m - 1)" using b by (simp add: power_int_nonneg_exp)
    finally show ?thesis .
  qed
  ultimately show ?thesis using False by (simp add: ilog2_def y_def m_def)
qed


lemma rhe_of_int: "round_half_even (of_int n) = n"
  by (simp add: round_half_even_def)

lemma rhe_floor: "\<lfloor>y\<rfloor> \<le> round_half_even y" "round_half_even y \<le> \<lfloor>y\<rfloor> + 1"
  by (simp_all add: round_half_even_def Let_def)

lemma rhe_error: "\<bar>of_int (round_half_even y) - y\<bar> \<le> 1 / 2"
proof -
  have "of_int \<lfloor>y\<rfloor> \<le> y" "y < of_int \<lfloor>y\<rfloor> + 1" by linarith+
  then show ?thesis by (auto simp add: round_half_even_def Let_def abs_le_iff)
qed

lemma rhe_mono: assumes "y \<le> z" shows "round_half_even y \<le> round_half_even z"
proof (cases "\<lfloor>y\<rfloor> = \<lfloor>z\<rfloor>")
  case True
  with assms show ?thesis by (auto simp add: round_half_even_def Let_def)
next
  case False
  with assms have "\<lfloor>y\<rfloor> + 1 \<le> \<lfloor>z\<rfloor>" using floor_mono [of y z] by linarith
  with rhe_floor(2) [of y] rhe_floor(1) [of z] show ?thesis by linarith
qed

lemma round53_pos:
  "0 < x \<Longrightarrow>
     round53 x = of_int (round_half_even (x / 2 powi (ilog2 x - 52))) * 2 powi (ilog2 x - 52)"
  by (simp add: round53_def Let_def)

lemma round53_minus: "round53 (- x) = - round53 x"
  by (simp add: round53_def Let_def)

lemma ulp_scale:
  "(2::rat) powi (k - 52) * 2 ^ 52 = 2 powi k"
  "(2::rat) powi (k - 52) * 2 ^ 53 = 2 powi (k + 1)"
proof -
  have "(2::rat) powi (k - 52) * 2 powi 52 = 2 powi (k - 52 + 52)"
    by (rule power_int_add [symmetric]) simp
  then show "(2::rat) powi (k - 52) * 2 ^ 52 = 2 powi k" by simp
  have "(2::rat) powi (k - 52) * 2 powi 53 = 2 powi (k - 52 + 53)"
    by (rule power_int_add [symmetric]) simp
  then show "(2::rat) powi (k - 52) * 2 ^ 53 = 2 powi (k + 1)" by (simp add: add.commute)
qed

lemma significand_range:
  assumes "0 < x"
  shows "2 ^ 52 \<le> round_half_even (x / 2 powi (ilog2 x - 52))"
    and "round_half_even (x / 2 powi (ilog2 x - 52)) \<le> 2 ^ 53"
proof -
  let ?s = "(2::rat) powi (ilog2 x - 52)"
  have s: "0 < ?s" by (simp add: zero_less_power_int)
  have "?s * 2 ^ 52 \<le> x" using ilog2_lower [OF assms] by (simp only: ulp_scale)
  then have "2 ^ 52 \<le> x / ?s" using s by (simp add: pos_le_divide_eq mult.commute)
  then have "of_int (2 ^ 52) \<le> x / ?s" by simp
  from rhe_mono [OF this] show "2 ^ 52 \<le> round_half_even (x / ?s)"
    by (simp only: rhe_of_int)
  have "x < ?s * 2 ^ 53" using ilog2_upper [OF assms] by (simp only: ulp_scale)
  then have "x / ?s \<le> 2 ^ 53" using s by (simp add: pos_divide_le_eq mult.commute)
  then have "x / ?s \<le> of_int (2 ^ 53)" by simp
  from rhe_mono [OF this] show "round_half_even (x / ?s) \<le> 2 ^ 53"
    by (simp only: rhe_of_int)
qed

lemma round53_binade:
  assumes "0 < x"
  shows "2 powi ilog2 x \<le> round53 x" and "round53 x \<le> 2 powi (ilog2 x + 1)"
proof -
  let ?s = "(2::rat) powi (ilog2 x - 52)"
  let ?m = "round_half_even (x / ?s)"
  have s: "0 \<le> ?s" by (simp add: zero_le_power_int)
  have r: "round53 x = ?s * of_int ?m"
    by (simp add: round53_pos [OF assms] mult.commute)
  have "(of_int (2 ^ 52) :: rat) \<le> of_int ?m"
    using significand_range(1) [OF assms] by (simp only: of_int_le_iff)
  then have lo: "(2 ^ 52 :: rat) \<le> of_int ?m" by simp
  have "2 powi ilog2 x = ?s * 2 ^ 52" by (simp only: ulp_scale)
  also have "\<dots> \<le> ?s * of_int ?m" using lo s by (rule mult_left_mono)
  finally show "2 powi ilog2 x \<le> round53 x" by (simp only: r)
  have "(of_int ?m :: rat) \<le> of_int (2 ^ 53)"
    using significand_range(2) [OF assms] by (simp only: of_int_le_iff)
  then have hi: "(of_int ?m :: rat) \<le> 2 ^ 53" by simp
  have "?s * of_int ?m \<le> ?s * 2 ^ 53" using hi s by (rule mult_left_mono)
  also have "\<dots> = 2 powi (ilog2 x + 1)" by (simp only: ulp_scale)
  finally show "round53 x \<le> 2 powi (ilog2 x + 1)" by (simp only: r)
qed

lemma round53_error:
  "\<bar>round53 x - x\<bar> \<le> \<bar>x\<bar> / 2 ^ 53"
proof -
  have pos: "\<bar>round53 x - x\<bar> \<le> x / 2 ^ 53" if "0 < x" for x
  proof -
    let ?s = "(2::rat) powi (ilog2 x - 52)"
    let ?m = "round_half_even (x / ?s)"
    have s: "0 < ?s" by (simp add: zero_less_power_int)
    have "round53 x - x = (of_int ?m - x / ?s) * ?s"
      using s by (simp add: round53_pos [OF that] algebra_simps)
    then have "\<bar>round53 x - x\<bar> = \<bar>of_int ?m - x / ?s\<bar> * ?s"
      using s by (simp add: abs_mult)
    also have "\<dots> \<le> 1 / 2 * ?s"
      using rhe_error [of "x / ?s"] s by (intro mult_right_mono) auto
    also have "\<dots> = (?s * 2 ^ 52) / 2 ^ 53" by simp
    also have "\<dots> \<le> x / 2 ^ 53"
      using ilog2_lower [OF that] by (simp only: ulp_scale) (simp add: divide_right_mono)
    finally show ?thesis .
  qed
  consider "x = 0" | "0 < x" | "x < 0" by linarith
  then show ?thesis
  proof cases
    case 1
    then show ?thesis by (simp add: round53_def)
  next
    case 2
    with pos [OF 2] show ?thesis by simp
  next
    case 3
    then have "0 < - x" by simp
    from pos [OF this] 3 show ?thesis by (simp add: round53_minus abs_minus_commute)
  qed
qed



lemma round53_nonneg: "0 \<le> x \<Longrightarrow> 0 \<le> round53 x"
proof (cases "x = 0")
  case True
  then show ?thesis by (simp add: round53_def)
next
  case False
  assume "0 \<le> x"
  with False have x: "0 < x" by simp
  have "(0::rat) \<le> 2 powi ilog2 x" by (simp add: zero_le_power_int)
  with round53_binade(1) [OF x] show ?thesis by linarith
qed



lemma round53_of_int_pos: assumes "0 < n" "n < 2 ^ 53" shows "round53 (of_int n) = of_int n"
proof -
  let ?x = "of_int n :: rat"
  have x: "0 < ?x" using assms by simp
  have "(2::rat) powi ilog2 ?x \<le> ?x" by (rule ilog2_lower [OF x])
  also have "?x < of_int (2 ^ 53)" using assms(2) by (simp only: of_int_less_iff)
  also have "(of_int (2 ^ 53) :: rat) = 2 powi 53" by simp
  finally have "ilog2 ?x < 53" by (rule power_int_le_imp_less_exp [rotated]) simp_all
  then have k: "ilog2 ?x - 52 = - int (nat (52 - ilog2 ?x))" by simp
  define j where "j = nat (52 - ilog2 ?x)"
  have s: "(2::rat) powi (ilog2 ?x - 52) = 1 / 2 ^ j"
    unfolding k j_def [symmetric] by (simp add: power_int_minus_divide)
  have "?x / (1 / 2 ^ j) = of_int (n * 2 ^ j)" by simp
  then have "round_half_even (?x / (1 / 2 ^ j)) = n * 2 ^ j" by (simp only: rhe_of_int)
  then show ?thesis by (simp add: round53_pos [OF x] s)
qed

lemma round53_of_int: assumes "\<bar>n\<bar> < 2 ^ 53" shows "round53 (of_int n) = of_int n"
proof -
  consider "n = 0" | "0 < n" | "n < 0" by linarith
  then show ?thesis
  proof cases
    case 1
    then show ?thesis by (simp add: round53_def)
  next
    case 2
    with assms show ?thesis by (intro round53_of_int_pos) simp_all
  next
    case 3
    with assms have "round53 (of_int (- n)) = of_int (- n)" by (intro round53_of_int_pos) simp_all
    then show ?thesis by (simp add: round53_minus)
  qed
qed


lemma seek_ms_close:
  assumes "0 \<le> v" "v \<le> 1000" "0 < d" "d < 2 ^ 40"
  defines "E \<equiv> of_int (v * d) / 1000"
  defines "r \<equiv> float_mul (int_truediv v 1000) (float_of_int d)"
  shows "0 \<le> r" and "\<bar>r - E\<bar> < 1 / 1000"
proof -
  let ?f = "of_int v / 1000 :: rat"
  let ?f1 = "round53 ?f"
  let ?P = "?f1 * of_int d"
  have d53: "\<bar>d\<bar> < 2 ^ 53" using assms(3,4) by simp
  have r: "r = round53 ?P"
    by (simp add: r_def float_mul_def int_truediv_def float_of_int_def round53_of_int [OF d53])
  have f0: "0 \<le> ?f" using assms(1) by simp
  have f1: "0 \<le> ?f1" by (rule round53_nonneg [OF f0])
  have dq: "(0::rat) < of_int d" "(of_int d :: rat) < 2 ^ 40"
    using assms(3) apply simp
    using assms(4) of_int_less_iff [of d "2 ^ 40", where ?'a = rat] by simp
  have P0: "0 \<le> ?P" using f1 dq by simp
  show "0 \<le> r" unfolding r by (rule round53_nonneg [OF P0])
  have E: "E = ?f * of_int d" by (simp add: E_def)
  have E0: "0 \<le> E" unfolding E using f0 dq by simp
  have "?f \<le> 1" using assms(2) by simp
  then have "?f * of_int d \<le> 1 * of_int d" using dq by (intro mult_right_mono) simp_all
  then have Ed: "E < 2 ^ 40" unfolding E using dq(2) by linarith
  have "?P - E = (?f1 - ?f) * of_int d" unfolding E by (rule left_diff_distrib [symmetric])
  then have "\<bar>?P - E\<bar> = \<bar>?f1 - ?f\<bar> * \<bar>of_int d\<bar>" by (simp only: abs_mult)
  also have "\<dots> = \<bar>?f1 - ?f\<bar> * of_int d" using dq(1) by (simp only: abs_of_pos)
  also have "\<dots> \<le> (\<bar>?f\<bar> / 2 ^ 53) * of_int d"
    using round53_error [of ?f] dq by (intro mult_right_mono) simp_all
  also have "\<dots> = E / 2 ^ 53" unfolding E using f0 by simp
  finally have PE: "\<bar>?P - E\<bar> \<le> E / 2 ^ 53" .
  have rP: "\<bar>r - ?P\<bar> \<le> ?P / 2 ^ 53" unfolding r using round53_error [of ?P] P0 by simp
  have "\<bar>r - E\<bar> \<le> \<bar>r - ?P\<bar> + \<bar>?P - E\<bar>" by linarith
  with rP PE have "\<bar>r - E\<bar> \<le> ?P / 2 ^ 53 + E / 2 ^ 53" by linarith
  moreover have "?P \<le> E + E / 2 ^ 53" using PE by linarith
  ultimately show "\<bar>r - E\<bar> < 1 / 1000" using Ed E0 by simp
qed


lemma seek_ms_bounds:
  assumes "0 \<le> v" "v \<le> 1000" "0 < d" "d < 2 ^ 40"
  shows "(v * d) div 1000 - 1 \<le> seek_ms v d"
    and "seek_ms v d \<le> (v * d) div 1000"
    and "(v * d) mod 1000 \<noteq> 0 \<Longrightarrow> seek_ms v d = (v * d) div 1000"
proof -
  define q where "q = (v * d) div 1000"
  define j where "j = (v * d) mod 1000"
  define r where "r = float_mul (int_truediv v 1000) (float_of_int d)"
  define E :: rat where "E = of_int (v * d) / 1000"
  have j: "0 \<le> j" "j \<le> 999" by (simp_all add: j_def)
  have "v * d = 1000 * q + j" by (simp add: q_def j_def)
  then have "(of_int (v * d) :: rat) = of_int (1000 * q + j)" by (simp only:)
  then have E: "E = of_int q + of_int j / 1000" by (simp add: E_def add_divide_distrib)
  have r0: "0 \<le> r" and close: "\<bar>r - E\<bar> < 1 / 1000"
    unfolding r_def E_def by (rule seek_ms_close [OF assms])+
  have t: "seek_ms v d = \<lfloor>r\<rfloor>" using r0 by (simp add: seek_ms_def r_def py_int_def)
  have jq: "(0::rat) \<le> of_int j" "(of_int j :: rat) \<le> 999"
    using j of_int_le_iff [of j 999, where ?'a = rat] by simp_all
  have cl: "\<bar>r - (of_int q + of_int j / 1000)\<bar> < 1 / 1000" using close unfolding E .
  have "r < of_int q + 1" using cl jq by linarith
  then have "r < of_int (q + 1)" by simp
  then have up: "\<lfloor>r\<rfloor> < q + 1" by (simp only: floor_less_iff)
  have "of_int q - 1 \<le> r" using cl jq by linarith
  then have "of_int (q - 1) \<le> r" by simp
  then have lo: "q - 1 \<le> \<lfloor>r\<rfloor>" by (simp only: le_floor_iff)
  show "(v * d) div 1000 - 1 \<le> seek_ms v d" using lo by (simp add: t q_def)
  show "seek_ms v d \<le> (v * d) div 1000" using up by (simp add: t q_def)
  show "seek_ms v d = (v * d) div 1000" if "(v * d) mod 1000 \<noteq> 0"
  proof -
    from that j have "1 \<le> j" by (simp add: j_def)
    then have "(1::rat) \<le> of_int j" using of_int_le_iff [of 1 j, where ?'a = rat] by simp
    then have "of_int q \<le> r" using cl by linarith
    then have "q \<le> \<lfloor>r\<rfloor>" by (simp only: le_floor_iff)
    with up show ?thesis by (simp add: t q_def)
  qed
qed

lemma seek_ms_examples:
  "seek_ms 600 3 = 1" "round (600 / 1000 * 3 :: rat) = 2"
  "seek_ms 290 100 = 28" "seek_ms 500 3000 = 1500"
  by code_simp+


lemma volume_examples:
  "float_div (float_of_int 150) 100 = 3 / 2"
  "float_div (float_of_int (- 5)) 100 < 0"
  "float_div (float_of_int 70) 100 = 3152519739159347 / 4503599627370496"
  by code_simp+

section \<open>The seek drag\<close>

lemma deliver_all_seeking: "is_seeking w \<Longrightarrow> deliver_all evs w = w"
  unfolding deliver_all_def
proof (induction evs)
  case Nil
  show ?case by simp
next
  case (Cons ev evs)
  obtain p e where ev: "ev = (p, e)" by (cases ev)
  have "deliver ev w = w"
    using Cons.prems by (cases e) (simp_all add: ev on_position_changed_def periodic_update_def)
  with Cons show ?case by simp
qed

text \<open>
  Claim C1. While \<open>is_seeking\<close> is set, a position notification of the player and a tick of
  the periodic timer each leave the window as it is, and so does every sequence of such
  events, whatever the player reports with each of them: the time label and the value of
  the seek slider keep what the drag has put there, and the flag stays set.
\<close>

theorem seek_drag_blocks_engine_refresh:
  "is_seeking w \<Longrightarrow>
     on_position_changed p pos w = w \<and> periodic_update p w = w \<and> deliver_all evs w = w"
  by (simp add: on_position_changed_def periodic_update_def deliver_all_seeking)

theorem seek_drag_blocks_engine_refresh_witness:
  "is_seeking (seeker_pressed abc_window)
   \<and> on_position_changed playing_player 1500 (seeker_pressed abc_window)
       = seeker_pressed abc_window
   \<and> periodic_update playing_player (seeker_pressed abc_window) = seeker_pressed abc_window
   \<and> deliver_all [(playing_player, PositionChanged 1500), (playing_player, TimerTimeout)]
        (seeker_pressed abc_window) = seeker_pressed abc_window"
  using seek_drag_blocks_engine_refresh
    [of "seeker_pressed abc_window" playing_player 1500
        "[(playing_player, PositionChanged 1500), (playing_player, TimerTimeout)]"]
  by (simp add: seeker_pressed_def)

text \<open>
  As it is stated, claim C9 has \<open>stop\<close> clear the flag too. It does not: when the
  slider is pressed and \<open>stop\<close> is called, \<open>is_seeking\<close> is still set.
\<close>

theorem stop_keeps_seeking_counterexample:
  "is_seeking (stop (seeker_pressed abc_window))"
  by (simp add: stop_def seeker_pressed_def player_call_def)

text \<open>
  Claim C9, as the code has it. Releasing the seek slider always clears \<open>is_seeking\<close>.
  \<open>stop\<close> only calls \<open>player.stop()\<close>: it leaves \<open>is_seeking\<close> as it was, so a stop
  during a drag leaves the flag set.
\<close>

theorem release_resets_seeking_stop_does_not:
  "is_seeking (seeker_released p w) = False
   \<and> stop w = w\<lparr>calls := calls w @ [Stop]\<rparr>
   \<and> is_seeking (stop w) = is_seeking w"
  by (simp add: seeker_released_def stop_def player_call_def Let_def)

text \<open>
  As it is stated, claim C2 has the seek target \<open>round(f * D)\<close>. With the slider at 1
  and a duration of 215999 ms the code seeks to 215; the product rounded is 216.
\<close>

theorem seek_target_truncated_counterexample:
  "calls (seeker_released (playing_player\<lparr>duration := 215999\<rparr>) (abc_window\<lparr>seek_slider := 1\<rparr>))
     = [SetPosition 215]
   \<and> round (1 / 1000 * 215999 :: rat) = 216"
  by code_simp

text \<open>
  Claim C2, as the code has it. Releasing the seek slider with a positive duration \<open>D\<close>
  and slider value \<open>v\<close> (the fraction \<open>v / 1000\<close>) makes exactly one call
  \<open>setPosition(int((v / 1000) * D))\<close>: the product is truncated, not rounded to the
  nearest integer. For \<open>0 \<le> v \<le> 1000\<close> and \<open>D < 2\<^sup>4\<^sup>0\<close> the target is
  \<open>\<lfloor>v * D / 1000\<rfloor>\<close> when \<open>v * D\<close> is no multiple of 1000, and that value or one less
  when it is. With a duration that is zero or negative no call is made. In both cases
  \<open>is_seeking\<close> is cleared.
\<close>

theorem seeker_released_seeks_once:
  "(0 < duration p \<longrightarrow>
      seeker_released p w
        = w\<lparr>calls := calls w @ [SetPosition (seek_ms (seek_slider w) (duration p))],
            is_seeking := False\<rparr>)
   \<and> (duration p \<le> 0 \<longrightarrow> seeker_released p w = w\<lparr>is_seeking := False\<rparr>)
   \<and> (0 \<le> seek_slider w \<and> seek_slider w \<le> 1000 \<and> 0 < duration p \<and> duration p < 2 ^ 40 \<longrightarrow>
        (seek_slider w * duration p) div 1000 - 1 \<le> seek_ms (seek_slider w) (duration p)
        \<and> seek_ms (seek_slider w) (duration p) \<le> (seek_slider w * duration p) div 1000
        \<and> ((seek_slider w * duration p) mod 1000 \<noteq> 0 \<longrightarrow>
             seek_ms (seek_slider w) (duration p) = (seek_slider w * duration p) div 1000))"
proof (intro conjI impI)
  assume "0 < duration p"
  then show "seeker_released p w
        = w\<lparr>calls := calls w @ [SetPosition (seek_ms (seek_slider w) (duration p))],
            is_seeking := False\<rparr>"
    by (simp add: seeker_released_def player_call_def Let_def)
next
  assume "duration p \<le> 0"
  then show "seeker_released p w = w\<lparr>is_seeking := False\<rparr>"
    by (simp add: seeker_released_def Let_def)
next
  assume a: "0 \<le> seek_slider w \<and> seek_slider w \<le> 1000 \<and> 0 < duration p \<and> duration p < 2 ^ 40"
  then show "(seek_slider w * duration p) div 1000 - 1 \<le> seek_ms (seek_slider w) (duration p)"
    by (intro seek_ms_bounds(1)) simp_all
next
  assume a: "0 \<le> seek_slider w \<and> seek_slider w \<le> 1000 \<and> 0 < duration p \<and> duration p < 2 ^ 40"
  then show "seek_ms (seek_slider w) (duration p) \<le> (seek_slider w * duration p) div 1000"
    by (intro seek_ms_bounds(2)) simp_all
next
  assume a: "0 \<le> seek_slider w \<and> seek_slider w \<le> 1000 \<and> 0 < duration p \<and> duration p < 2 ^ 40"
    and m: "(seek_slider w * duration p) mod 1000 \<noteq> 0"
  from a m show "seek_ms (seek_slider w) (duration p) = (seek_slider w * duration p) div 1000"
    by (intro seek_ms_bounds(3)) simp_all
qed

theorem seeker_released_seeks_once_witness:
  "0 < duration (playing_player\<lparr>duration := 215999\<rparr>)
   \<and> duration (playing_player\<lparr>duration := 215999\<rparr>) < 2 ^ 40
   \<and> 0 \<le> seek_slider (abc_window\<lparr>seek_slider := 1, is_seeking := True\<rparr>)
   \<and> seek_slider (abc_window\<lparr>seek_slider := 1, is_seeking := True\<rparr>) \<le> 1000
   \<and> (1 * 215999) mod 1000 \<noteq> (0::int)
   \<and> seeker_released (playing_player\<lparr>duration := 215999\<rparr>)
        (abc_window\<lparr>seek_slider := 1, is_seeking := True\<rparr>)
       = abc_window\<lparr>seek_slider := 1, calls := [SetPosition 215], is_seeking := False\<rparr>
   \<and> duration idle_player \<le> 0
   \<and> seeker_released idle_player (abc_window\<lparr>seek_slider := 1, is_seeking := True\<rparr>)
       = abc_window\<lparr>seek_slider := 1, is_seeking := False\<rparr>"
  using seeker_released_seeks_once
      [of "playing_player\<lparr>duration := 215999\<rparr>"
          "abc_window\<lparr>seek_slider := 1, is_seeking := True\<rparr>"]
    seeker_released_seeks_once
      [of idle_player "abc_window\<lparr>seek_slider := 1, is_seeking := True\<rparr>"]
  by (simp add: abc_window_def playing_player_def idle_player_def)

section \<open>Navigation\<close>

lemma play_at_index_valid:
  "0 \<le> idx \<Longrightarrow> idx < int (length (current_playlist w)) \<Longrightarrow>
     \<exists>w'. play_at_index idx w = Inr w' \<and> current_index w' = idx
          \<and> current_playlist w' = current_playlist w
          \<and> calls w' = calls w @ [SetSource (current_playlist w ! nat idx), Play]"
  by (simp add: play_at_index_def getitem_def player_call_def setCurrentRow_def Let_def)

lemma map_dist_certain: "map_dist f (certain x) = certain (f x)"
  by (simp add: map_dist_def certain_def)

text \<open>
  Claim C3. With a playlist that is not empty, a current index inside it, and repeat and
  shuffle both off, \<open>next_track\<close> and \<open>prev_track\<close> return normally and leave a current
  index inside the playlist: the next index is the smaller of \<open>current_index + 1\<close> and
  \<open>len - 1\<close>, so Next from the last track stays on the last track, and the previous index is
  the larger of \<open>current_index - 1\<close> and \<open>0\<close>, so Previous from the first track stays on it.
  Nothing is drawn: \<open>next_track\<close> has this one result.
\<close>

theorem navigation_clamps_without_repeat:
  assumes "current_playlist w \<noteq> []"
    and "0 \<le> current_index w"
    and "current_index w < int (length (current_playlist w))"
    and "\<not> repeat_checked w"
    and "\<not> shuffle_checked w"
  shows "(\<exists>w'. next_track w = certain (Inr w')
            \<and> current_index w' = min (current_index w + 1) (int (length (current_playlist w)) - 1)
            \<and> 0 \<le> current_index w' \<and> current_index w' < int (length (current_playlist w))
            \<and> (current_index w = int (length (current_playlist w)) - 1
                 \<longrightarrow> current_index w' = int (length (current_playlist w)) - 1))
       \<and> (\<exists>w'. prev_track w = Inr w'
            \<and> current_index w' = max (current_index w - 1) 0
            \<and> 0 \<le> current_index w' \<and> current_index w' < int (length (current_playlist w))
            \<and> (current_index w = 0 \<longrightarrow> current_index w' = 0))"
proof (intro conjI)
  let ?n = "int (length (current_playlist w))"
  let ?i = "min (current_index w + 1) (?n - 1)"
  have nx: "next_track w = certain (play_at_index ?i w)"
    using assms by (simp add: next_track_def Let_def min_def map_dist_certain)
  have "0 \<le> ?i" "?i < ?n" using assms by auto
  from play_at_index_valid [OF this] obtain w' where
    "play_at_index ?i w = Inr w'" "current_index w' = ?i" by blast
  with nx assms show "\<exists>w'. next_track w = certain (Inr w')
            \<and> current_index w' = ?i
            \<and> 0 \<le> current_index w' \<and> current_index w' < ?n
            \<and> (current_index w = ?n - 1 \<longrightarrow> current_index w' = ?n - 1)"
    by auto
next
  let ?n = "int (length (current_playlist w))"
  let ?i = "max (current_index w - 1) 0"
  have pv: "prev_track w = play_at_index ?i w"
    using assms by (simp add: prev_track_def Let_def max_def)
  have "0 \<le> ?i" "?i < ?n" using assms by auto
  from play_at_index_valid [OF this] obtain w' where
    "play_at_index ?i w = Inr w'" "current_index w' = ?i" by blast
  with pv assms show "\<exists>w'. prev_track w = Inr w'
            \<and> current_index w' = ?i
            \<and> 0 \<le> current_index w' \<and> current_index w' < ?n
            \<and> (current_index w = 0 \<longrightarrow> current_index w' = 0)"
    by auto
qed

theorem navigation_clamps_without_repeat_witness:
  "current_playlist abc_window \<noteq> []
   \<and> 0 \<le> current_index abc_window
   \<and> current_index abc_window < int (length (current_playlist abc_window))
   \<and> \<not> repeat_checked abc_window \<and> \<not> shuffle_checked abc_window
   \<and> current_index abc_window = int (length (current_playlist abc_window)) - 1
   \<and> (\<exists>w'. next_track abc_window = certain (Inr w') \<and> current_index w' = 2)
   \<and> (\<exists>w'. prev_track abc_window = Inr w' \<and> current_index w' = 1)
   \<and> (\<exists>w'. prev_track (abc_window\<lparr>current_index := 0\<rparr>) = Inr w' \<and> current_index w' = 0)"
  using navigation_clamps_without_repeat [of abc_window]
    navigation_clamps_without_repeat [of "abc_window\<lparr>current_index := 0\<rparr>"]
  by (auto simp add: abc_window_def)

text \<open>
  Claim C4. With a playlist that is not empty, repeat on and shuffle off, navigation wraps:
  \<open>next_track\<close> from the last index plays index \<open>0\<close>, and \<open>prev_track\<close> from index \<open>0\<close>
  plays the last index.
\<close>

theorem navigation_wraps_with_repeat:
  assumes "current_playlist w \<noteq> []"
    and "repeat_checked w"
    and "\<not> shuffle_checked w"
  shows "(current_index w = int (length (current_playlist w)) - 1
            \<longrightarrow> (\<exists>w'. next_track w = certain (Inr w') \<and> current_index w' = 0))
       \<and> (current_index w = 0
            \<longrightarrow> (\<exists>w'. prev_track w = Inr w'
                      \<and> current_index w' = int (length (current_playlist w)) - 1))"
proof (intro conjI impI)
  assume "current_index w = int (length (current_playlist w)) - 1"
  with assms have "next_track w = certain (play_at_index 0 w)"
    by (simp add: next_track_def Let_def map_dist_certain)
  moreover have "\<exists>w'. play_at_index 0 w = Inr w' \<and> current_index w' = 0"
    using play_at_index_valid [of 0 w] assms by auto
  ultimately show "\<exists>w'. next_track w = certain (Inr w') \<and> current_index w' = 0"
    by auto
next
  let ?n = "int (length (current_playlist w))"
  assume "current_index w = 0"
  with assms have "prev_track w = play_at_index (?n - 1) w"
    by (simp add: prev_track_def Let_def)
  moreover have "\<exists>w'. play_at_index (?n - 1) w = Inr w' \<and> current_index w' = ?n - 1"
    using play_at_index_valid [of "?n - 1" w] assms by auto
  ultimately show "\<exists>w'. prev_track w = Inr w' \<and> current_index w' = ?n - 1"
    by simp
qed

theorem navigation_wraps_with_repeat_witness:
  "current_playlist (abc_window\<lparr>repeat_checked := True\<rparr>) \<noteq> []
   \<and> repeat_checked (abc_window\<lparr>repeat_checked := True\<rparr>)
   \<and> \<not> shuffle_checked (abc_window\<lparr>repeat_checked := True\<rparr>)
   \<and> current_index (abc_window\<lparr>repeat_checked := True\<rparr>) = 2
   \<and> (\<exists>w'. next_track (abc_window\<lparr>repeat_checked := True\<rparr>) = certain (Inr w')
          \<and> current_index w' = 0)
   \<and> (\<exists>w'. prev_track (abc_window\<lparr>repeat_checked := True, current_index := 0\<rparr>) = Inr w'
          \<and> current_index w' = 2)"
  using navigation_wraps_with_repeat [of "abc_window\<lparr>repeat_checked := True\<rparr>"]
    navigation_wraps_with_repeat [of "abc_window\<lparr>repeat_checked := True, current_index := 0\<rparr>"]
  by (auto simp add: abc_window_def)

lemma sum_list_pick:
  "sum_list (map (\<lambda>k. if int k = i then c else 0) [0..<n])
     = (if 0 \<le> i \<and> i < int n then c else (0::rat))"
  by (induction n) auto

lemma next_track_shuffle:
  assumes "current_playlist w \<noteq> []" and "shuffle_checked w"
  shows "next_track w
           = map (\<lambda>k. (play_at_index (int k) w, 1 / of_int (int (length (current_playlist w)))))
               [0..<length (current_playlist w)]"
  using assms by (simp add: next_track_def randrange_def map_dist_def Let_def)

lemma played_index_in_range:
  assumes "k < length (current_playlist w)"
  shows "played_index (play_at_index (int k) w) = Some (int k)"
proof -
  from assms have "0 \<le> int k" "int k < int (length (current_playlist w))" by simp_all
  from play_at_index_valid [OF this] show ?thesis by (auto simp add: played_index_def)
qed

text \<open>
  Claim C5. With shuffle on and a playlist of any length \<open>len\<close> above zero, \<open>next_track\<close>
  draws with \<open>random.randrange(len)\<close> and plays what is drawn. Every result is a normal
  return with a current index from \<open>0\<close> to \<open>len - 1\<close>, and each of these indices, the one
  that was current before included, is the result with probability \<open>1 / len\<close>; for
  \<open>len = 1\<close> that is index \<open>0\<close> with probability 1.
\<close>

theorem shuffle_draws_uniformly:
  assumes "current_playlist w \<noteq> []"
    and "shuffle_checked w"
  shows "(\<forall>res \<in> fst ` set (next_track w).
            \<exists>w'. res = Inr w' \<and> 0 \<le> current_index w'
                 \<and> current_index w' < int (length (current_playlist w)))
       \<and> (\<forall>i. 0 \<le> i \<and> i < int (length (current_playlist w)) \<longrightarrow>
              prob (next_track w) (\<lambda>res. played_index res = Some i)
                = 1 / of_int (int (length (current_playlist w))))
       \<and> prob (next_track w) (\<lambda>res. True) = 1"
proof (intro conjI ballI allI impI)
  let ?n = "length (current_playlist w)"
  let ?c = "1 / of_int (int ?n) :: rat"
  note nt = next_track_shuffle [OF assms]
  {
    fix res
    assume "res \<in> fst ` set (next_track w)"
    then obtain k where k: "k < ?n" and res: "res = play_at_index (int k) w"
      unfolding nt by auto
    from k have "0 \<le> int k" "int k < int ?n" by simp_all
    from play_at_index_valid [OF this] res k
    show "\<exists>w'. res = Inr w' \<and> 0 \<le> current_index w' \<and> current_index w' < int ?n"
      by auto
  next
    fix i
    assume i: "0 \<le> i \<and> i < int ?n"
    have "prob (next_track w) (\<lambda>res. played_index res = Some i)
            = sum_list (map (\<lambda>k. if played_index (play_at_index (int k) w) = Some i
                                    then ?c else 0) [0..<?n])"
      unfolding nt by (simp add: prob_def comp_def del: of_int_of_nat_eq)
    also have "\<dots> = sum_list (map (\<lambda>k. if int k = i then ?c else 0) [0..<?n])"
      by (rule arg_cong [where f = sum_list], rule map_cong)
        (simp_all add: played_index_in_range)
    also have "\<dots> = ?c" using i by (simp add: sum_list_pick)
    finally show "prob (next_track w) (\<lambda>res. played_index res = Some i) = ?c" .
  next
    have n: "?n \<noteq> 0" using assms(1) by simp
    have "prob (next_track w) (\<lambda>res. True) = sum_list (map (\<lambda>k. ?c) [0..<?n])"
      unfolding nt by (simp add: prob_def comp_def del: of_int_of_nat_eq)
    also have "\<dots> = of_nat ?n * ?c" by (simp add: sum_list_triv)
    also have "\<dots> = 1" using n by simp
    finally show "prob (next_track w) (\<lambda>res. True) = 1" .
  }
qed

theorem shuffle_draws_uniformly_witness:
  "current_playlist (abc_window\<lparr>shuffle_checked := True\<rparr>) \<noteq> []
   \<and> shuffle_checked (abc_window\<lparr>shuffle_checked := True\<rparr>)
   \<and> current_index (abc_window\<lparr>shuffle_checked := True\<rparr>) = 2
   \<and> prob (next_track (abc_window\<lparr>shuffle_checked := True\<rparr>))
        (\<lambda>res. played_index res = Some 2) = 1 / 3
   \<and> prob (next_track (abc_window\<lparr>shuffle_checked := True\<rparr>))
        (\<lambda>res. played_index res = Some 0) = 1 / 3
   \<and> prob (next_track (abc_window\<lparr>shuffle_checked := True, current_playlist := [''/m/A.mp3''],
                                     current_index := 0\<rparr>))
        (\<lambda>res. played_index res = Some 0) = 1"
proof -
  let ?W = "abc_window\<lparr>shuffle_checked := True\<rparr>"
  let ?V = "abc_window\<lparr>shuffle_checked := True, current_playlist := [''/m/A.mp3''],
                        current_index := 0\<rparr>"
  have W: "current_playlist ?W \<noteq> []" "shuffle_checked ?W"
    and V: "current_playlist ?V \<noteq> []" "shuffle_checked ?V"
    by (simp_all add: abc_window_def)
  have len: "int (length (current_playlist ?W)) = 3" "int (length (current_playlist ?V)) = 1"
    by (simp_all add: abc_window_def)
  from shuffle_draws_uniformly [OF W]
  have "\<forall>i. 0 \<le> i \<and> i < 3 \<longrightarrow> prob (next_track ?W) (\<lambda>res. played_index res = Some i) = 1 / 3"
    unfolding len by simp
  then have "prob (next_track ?W) (\<lambda>res. played_index res = Some 2) = 1 / 3"
    and "prob (next_track ?W) (\<lambda>res. played_index res = Some 0) = 1 / 3"
    by simp_all
  moreover from shuffle_draws_uniformly [OF V]
  have "\<forall>i. 0 \<le> i \<and> i < 1 \<longrightarrow> prob (next_track ?V) (\<lambda>res. played_index res = Some i) = 1"
    unfolding len by simp
  then have "prob (next_track ?V) (\<lambda>res. played_index res = Some 0) = 1" by simp
  moreover have "current_index ?W = 2" by (simp add: abc_window_def)
  ultimately show ?thesis using W by simp
qed

section \<open>Playing a track\<close>

text \<open>
  As it is stated, claim C6 has \<open>play_at_index\<close> fail for an index out of range. For
  the indices 3 and -1 of a playlist of three tracks it returns normally, and the window is
  the one it was given.
\<close>

theorem play_at_index_out_of_range_counterexample:
  "play_at_index 3 abc_window = Inr abc_window \<and> play_at_index 3 abc_window \<noteq> Inl IndexError
   \<and> play_at_index (- 1) abc_window = Inr abc_window"
  by (simp add: play_at_index_def abc_window_def)

text \<open>
  Claim C6, as the code has it. \<open>play_at_index\<close> with an index outside the playlist
  returns normally and changes nothing: no exception reaches the caller, no message is
  shown, no call is made to the player, and the current index stays as it was.
\<close>

theorem play_at_index_out_of_range_ignored:
  "idx < 0 \<or> int (length (current_playlist w)) \<le> idx \<Longrightarrow> play_at_index idx w = Inr w"
  by (auto simp add: play_at_index_def)

theorem play_at_index_out_of_range_ignored_witness:
  "((3::int) < 0 \<or> int (length (current_playlist abc_window)) \<le> 3)
   \<and> play_at_index 3 abc_window = Inr abc_window"
  using play_at_index_out_of_range_ignored [of 3 abc_window]
  by (simp add: abc_window_def)

text \<open>
  Claim C8. \<open>play_pause\<close> with an empty playlist and a player that has no local file as its
  source (such a player is not playing) returns normally, shows the message
  \<open>No track selected.\<close> in the status bar and changes nothing else: no call goes to the
  player, and the playlist, the current index and the seek state are as before.
\<close>

theorem play_pause_nothing_to_play:
  assumes "current_playlist w = []"
    and "\<not> sourceIsLocalFile p"
    and "playbackState p \<noteq> PlayingState"
  shows "play_pause p w = Inr (w\<lparr>status := ''No track selected.''\<rparr>)"
  using assms by (simp add: play_pause_def)

theorem play_pause_nothing_to_play_witness:
  "current_playlist empty_window = []
   \<and> \<not> sourceIsLocalFile idle_player
   \<and> playbackState idle_player \<noteq> PlayingState
   \<and> play_pause idle_player empty_window = Inr (empty_window\<lparr>status := ''No track selected.''\<rparr>)
   \<and> calls (empty_window\<lparr>status := ''No track selected.''\<rparr>) = calls empty_window"
  using play_pause_nothing_to_play [of empty_window idle_player]
  by (simp add: empty_window_def idle_player_def)

section \<open>Volume\<close>






section \<open>Loading a directory and the player\<close>

text \<open>
  Claim C10. \<open>load_directory\<close> makes no call to the player or to the audio output: the
  list of calls is as before, so neither stop nor pause is issued and the player keeps its
  state and its source. When the filter of the directory's entries (a file with a supported suffix) keeps none,
  the playlist becomes empty and the current index \<open>-1\<close>, also while a track is playing.
\<close>

theorem load_directory_leaves_player:
  "calls (load_directory path entries w) = calls w
   \<and> (filter (\<lambda>p. lower (suffix (entry_name p)) \<in> set SUPPORTED_EXTS \<and> entry_is_file p)
         entries = []
        \<longrightarrow> current_playlist (load_directory path entries w) = []
            \<and> current_index (load_directory path entries w) = - 1)"
  by (simp add: load_directory_def setCurrentRow_def Let_def)

theorem load_directory_leaves_player_witness:
  "filter (\<lambda>p. lower (suffix (entry_name p)) \<in> set SUPPORTED_EXTS \<and> entry_is_file p)
     no_audio_entries = []
   \<and> calls (load_directory ''/d'' no_audio_entries playing_c_window)
       = [SetSource ''/m/C.mp3'', Play]
   \<and> current_playlist (load_directory ''/d'' no_audio_entries playing_c_window) = []
   \<and> current_index (load_directory ''/d'' no_audio_entries playing_c_window) = - 1"
  using load_directory_leaves_player [of "''/d''" no_audio_entries playing_c_window]
    no_audio_entries_filter
  by (simp add: playing_c_window_def)

end
